theory Spec2Isabelle
  imports Complex_Main "HOL-Library.Word" "HOL-Library.Multiset"
begin

unbundle bit_operations_syntax

section \<open>Ping sweep: a shallow embedding of ping\_sweep.py\<close>

text \<open>
  The script enumerates the hosts of a network with Python's \<open>ipaddress\<close> module, runs
  one \<open>ping\<close> process per host on a thread pool, collects \<open>(ip, up)\<close> pairs in completion
  order and logs a summary. Everything outside the script is made explicit in a record
  \<open>world\<close>: the operating system's name, the exit status (or exception) that running a
  command gives, the order in which the futures complete, the commands run so far and the
  log records emitted so far.
\<close>

subsection \<open>Exceptions, log records, the world\<close>

text \<open>
  The exceptions that occur: \<open>FileNotFoundError\<close> (no \<open>ping\<close> binary), \<open>OSError\<close> for any
  other failure of \<open>subprocess.run\<close>, \<open>RuntimeError\<close> raised by \<open>ping_once\<close>, and
  \<open>ValueError\<close> raised by \<open>ipaddress.ip_network\<close> and by the thread pool's constructor.
  All of them are subclasses of Python's \<open>Exception\<close>.
\<close>

datatype exn =
    FileNotFoundError
  | OSError string
  | RuntimeError string
  | ValueError string

fun str_exn :: "exn \<Rightarrow> string" where
  "str_exn FileNotFoundError = ''[Errno 2] No such file or directory''"
| "str_exn (OSError m) = m"
| "str_exn (RuntimeError m) = m"
| "str_exn (ValueError m) = m"

text \<open>
  A call \<open>logging.info(fmt, *args)\<close> is kept as the level, the format string and the
  arguments. The elapsed wall-clock time of the summary line is a float read from the
  clock; it is kept as the token \<open>Elapsed\<close>.
\<close>

datatype level = INFO | ERROR | CRITICAL

datatype arg = S string | I int | Elapsed

type_synonym log_record = "level \<times> string \<times> arg list"

record world =
  system :: string
  parse_network :: "string \<Rightarrow> exn + (32 word \<times> nat)"
  respond :: "string list \<Rightarrow> exn + int"
  schedule :: "nat list"
  spawned :: "string list list"
  logged :: "log_record list"

definition logging :: "level \<Rightarrow> string \<Rightarrow> arg list \<Rightarrow> world \<Rightarrow> world" where
  "logging lv fmt args w = w\<lparr>logged := logged w @ [(lv, fmt, args)]\<rparr>"

text \<open>
  \<open>subprocess.run(cmd, ...)\<close>: the command is recorded as run once, and the world answers
  with the exit status of the process or with the exception raised when starting it.
\<close>

definition subprocess_run :: "world \<Rightarrow> string list \<Rightarrow> (exn + int) \<times> world" where
  "subprocess_run w cmd = (respond w cmd, w\<lparr>spawned := spawned w @ [cmd]\<rparr>)"

subsection \<open>Python's \<open>str\<close> on integers\<close>

definition digit_char :: "nat \<Rightarrow> char" where
  "digit_char d = ''0123456789'' ! d"

fun str_nat :: "nat \<Rightarrow> string" where
  "str_nat n = (if n < 10 then [digit_char n] else str_nat (n div 10) @ [digit_char (n mod 10)])"

declare str_nat.simps [simp del]

definition str_int :: "int \<Rightarrow> string" where
  "str_int i = (if i < 0 then CHR ''-'' # str_nat (nat (- i)) else str_nat (nat i))"

subsection \<open>The part of \<open>ipaddress\<close> the script uses (IPv4)\<close>

text \<open>
  \<open>ipaddress.ip_network(s, strict=False)\<close> splits the string into an address and a prefix
  length (the field \<open>parse_network\<close> of the world, which answers \<open>ValueError\<close> for a string
  that is no network) and then builds the network as \<open>IPv4Network.__init__\<close> of CPython's
  \<open>Lib/ipaddress.py\<close> does: host bits are masked off, and \<open>hosts\<close> is the iterator over
  the addresses strictly between the network and the broadcast address, except that a
  \<open>/31\<close> yields both of its addresses and a \<open>/32\<close> yields the list of its single address.
  Addresses are 32-bit words; IPv6 networks are outside this model.
\<close>

record ipv4_network =
  addr :: "32 word"
  network_address :: "32 word"
  prefixlen :: nat

definition ALL_ONES :: "32 word" where
  "ALL_ONES = 2 ^ 32 - 1"

definition ip_int_from_prefix :: "nat \<Rightarrow> 32 word" where
  "ip_int_from_prefix p = ALL_ONES XOR (drop_bit p ALL_ONES)"

definition IPv4Network :: "32 word \<Rightarrow> nat \<Rightarrow> ipv4_network" where
  "IPv4Network a p =
     (let netmask = ip_int_from_prefix p;
          packed = a
      in \<lparr>addr = a,
          network_address = (if packed AND netmask \<noteq> packed then packed AND netmask else a),
          prefixlen = p\<rparr>)"

definition hostmask :: "ipv4_network \<Rightarrow> 32 word" where
  "hostmask n = ip_int_from_prefix (prefixlen n) XOR ALL_ONES"

definition broadcast_address :: "ipv4_network \<Rightarrow> 32 word" where
  "broadcast_address n = network_address n OR hostmask n"

definition hosts :: "ipv4_network \<Rightarrow> 32 word list" where
  "hosts n =
     (let network = unat (network_address n);
          broadcast = unat (broadcast_address n)
      in if prefixlen n = 31 then map word_of_nat [network ..< broadcast + 1]
         else if prefixlen n = 32 then [addr n]
         else map word_of_nat [network + 1 ..< broadcast])"

fun join :: "string \<Rightarrow> string list \<Rightarrow> string" where
  "join sep [] = []"
| "join sep [x] = x"
| "join sep (x # y # ys) = x @ sep @ join sep (y # ys)"

definition to_bytes4 :: "32 word \<Rightarrow> nat list" where
  "to_bytes4 a =
     [unat a div 2 ^ 24 mod 256, unat a div 2 ^ 16 mod 256, unat a div 2 ^ 8 mod 256,
      unat a mod 256]"

definition str_ip :: "32 word \<Rightarrow> string" where
  "str_ip a = join ''.'' (map str_nat (to_bytes4 a))"

subsection \<open>\<open>get_ping_command\<close> and \<open>ping_once\<close>\<close>

definition unix_secs :: "int \<Rightarrow> int" where
  "unix_secs timeout_ms = max 1 ((timeout_ms + 999) div 1000)"

definition get_ping_command :: "string \<Rightarrow> string \<Rightarrow> int \<Rightarrow> string list" where
  "get_ping_command sys ip timeout_ms =
     (if sys = ''Windows''
      then [''ping'', ''-n'', ''1'', ''-w'', str_int timeout_ms, ip]
      else (let secs = unix_secs timeout_ms
            in [''ping'', ''-c'', ''1'', ''-W'', str_int secs, ip]))"

definition ping_once :: "world \<Rightarrow> string \<Rightarrow> int \<Rightarrow> (exn + bool) \<times> world" where
  "ping_once w ip timeout_ms =
     (let cmd = get_ping_command (system w) ip timeout_ms;
          (result, w') = subprocess_run w cmd
      in case result of
           Inr returncode \<Rightarrow> (Inr (returncode = 0), w')
         | Inl FileNotFoundError \<Rightarrow>
             (Inl (RuntimeError (CHR 0x27 # ''ping'' @ CHR 0x27 # '' command not found on this system'')), w')
         | Inl e \<Rightarrow> (Inl e, w'))"

subsection \<open>The thread pool and \<open>as_completed\<close>\<close>

text \<open>
  \<open>executor.submit(ping_once, ip, timeout_ms)\<close> is called once for every host, in the order
  of the host list, and leaving the \<open>with\<close> block waits for every future. A future is kept
  as the pair of its \<open>ip\<close> (the value stored in \<open>future_to_ip\<close>) and of what
  \<open>future.result()\<close> gives: the value returned by \<open>ping_once\<close> or the exception it raised.
\<close>

type_synonym future = "string \<times> (exn + bool)"

fun submit_all :: "world \<Rightarrow> string list \<Rightarrow> int \<Rightarrow> future list \<times> world" where
  "submit_all w [] timeout_ms = ([], w)"
| "submit_all w (ip # ips) timeout_ms =
     (let (r, w1) = ping_once w ip timeout_ms;
          (fs, w2) = submit_all w1 ips timeout_ms
      in ((ip, r) # fs, w2))"

text \<open>
  \<open>as_completed\<close> yields every future once, in the order in which they complete. That order
  is the scheduler's: at each step the next number of the world's \<open>schedule\<close> chooses which
  of the pending futures completes next (the first one when the schedule is used up).
\<close>

definition pick :: "nat list \<Rightarrow> nat \<Rightarrow> nat" where
  "pick sched n = (case sched of [] \<Rightarrow> 0 | c # _ \<Rightarrow> c mod n)"

definition remove_nth :: "nat \<Rightarrow> 'a list \<Rightarrow> 'a list" where
  "remove_nth i xs = take i xs @ drop (Suc i) xs"

function as_completed :: "nat list \<Rightarrow> 'a list \<Rightarrow> 'a list \<times> nat list" where
  "as_completed sched [] = ([], sched)"
| "as_completed sched (f # fs) =
     (let i = pick sched (length (f # fs));
          (rest, sched') = as_completed (tl sched) (remove_nth i (f # fs))
      in ((f # fs) ! i # rest, sched'))"
  by pat_completeness auto
termination
proof (relation "measure (\<lambda>(sched, fs). length fs)")
  show "wf (measure (\<lambda>(sched :: nat list, fs :: 'a list). length fs))"
    by simp
next
  fix sched :: "nat list" and f :: 'a and fs :: "'a list" and i :: nat
  assume i: "i = pick sched (length (f # fs))"
  have "i < length (f # fs)"
    unfolding i pick_def by (simp split: list.splits)
  then have "length (remove_nth i (f # fs)) < length (f # fs)"
    by (simp add: remove_nth_def)
  then show "((tl sched, remove_nth i (f # fs)), (sched, f # fs))
      \<in> measure (\<lambda>(sched, fs). length fs)"
    by simp
qed

subsection \<open>\<open>sweep_network\<close>\<close>

text \<open>
  One pass of the body of the \<open>for future in as_completed(...)\<close> loop, on the list
  \<open>results\<close> and the world.
\<close>

definition loop_body :: "bool \<Rightarrow> future \<Rightarrow> (string \<times> bool) list \<times> world \<Rightarrow> (string \<times> bool) list \<times> world" where
  "loop_body quiet future st =
     (case future of (ip, fut) \<Rightarrow>
      case st of (results, w) \<Rightarrow>
        (let (up, w1) = (case fut of
                           Inr r \<Rightarrow> (r, w)
                         | Inl exc \<Rightarrow> (False, logging ERROR ''Error pinging %s: %s'' [S ip, S (str_exn exc)] w));
             results1 = results @ [(ip, up)];
             w2 = (if \<not> quiet
                   then (if up then logging INFO ''%s is UP'' [S ip] w1
                         else logging INFO ''%s is DOWN'' [S ip] w1)
                   else w1)
         in (results1, w2)))"

definition sweep_network ::
  "world \<Rightarrow> string \<Rightarrow> int \<Rightarrow> int \<Rightarrow> bool \<Rightarrow> (exn + (string \<times> bool) list) \<times> world" where
  "sweep_network w network_cidr threads timeout_ms quiet =
     (case parse_network w network_cidr of
        Inl e \<Rightarrow> (Inl e, w)
      | Inr (a, p) \<Rightarrow>
          (let net = IPv4Network a p;
               hs = map str_ip (hosts net);
               w1 = logging INFO ''Starting sweep of %s (%d hosts) with %d threads''
                      [S network_cidr, I (int (length hs)), I threads] w
           in if threads \<le> 0
              then (Inl (ValueError ''max_workers must be greater than 0''), w1)
              else (let (future_to_ip, w2) = submit_all w1 hs timeout_ms;
                        (completed, sched') = as_completed (schedule w2) future_to_ip;
                        (results, w3) = fold (loop_body quiet) completed ([], w2\<lparr>schedule := sched'\<rparr>)
                    in (Inr results, w3))))"

subsection \<open>\<open>main\<close>\<close>

record args =
  network :: string
  threads :: int
  timeout :: int
  quiet :: bool

text \<open>
  How the process ends: \<open>Exit n\<close> for \<open>sys.exit(n)\<close> and for falling off the end of the
  script (\<open>n = 0\<close>), \<open>Uncaught e\<close> for an exception nobody catches (a traceback and exit
  status 1).
\<close>

datatype process_end = Exit int | Uncaught exn

fun exit_status :: "process_end \<Rightarrow> int" where
  "exit_status (Exit n) = n"
| "exit_status (Uncaught e) = 1"

definition up_count :: "(string \<times> bool) list \<Rightarrow> nat" where
  "up_count results = sum_list (map (\<lambda>_. 1) (filter (\<lambda>(_, up). up) results))"

definition total_count :: "(string \<times> bool) list \<Rightarrow> nat" where
  "total_count results = length results"

definition main :: "world \<Rightarrow> args \<Rightarrow> process_end \<times> world" where
  "main w a =
     (case sweep_network w (network a) (max 1 (threads a)) (max 1 (timeout a)) (quiet a) of
        (Inl (RuntimeError e), w1) \<Rightarrow> (Exit 1, logging CRITICAL e [] w1)
      | (Inl e, w1) \<Rightarrow> (Uncaught e, w1)
      | (Inr results, w1) \<Rightarrow>
          (Exit 0, logging INFO ''Scan finished: %d/%d hosts up (%.1fs)''
                     [I (int (up_count results)), I (int (total_count results)), Elapsed] w1))"

subsection \<open>Quantities read off a sweep\<close>

text \<open>
  What the \<open>try\<close>/\<open>except Exception\<close> of the loop makes of a future: its value, or
  \<open>False\<close> when \<open>future.result()\<close> raised.
\<close>

definition up_of :: "exn + bool \<Rightarrow> bool" where
  "up_of fut = (case fut of Inr r \<Rightarrow> r | Inl exc \<Rightarrow> False)"

text \<open>The pairs recorded with \<open>up = False\<close>: the hosts the loop reports as \<open>DOWN\<close>.\<close>

definition down_count :: "(string \<times> bool) list \<Rightarrow> nat" where
  "down_count results = sum_list (map (\<lambda>_. 1) (filter (\<lambda>(_, up). \<not> up) results))"

text \<open>The probes that raised: the \<open>ERROR\<close> records of the log.\<close>

definition error_count :: "log_record list \<Rightarrow> nat" where
  "error_count lg = length (filter (\<lambda>(lv, _, _). lv = ERROR) lg)"

text \<open>
  The aggregator of the specification keeps three counts and puts every outcome into
  exactly one of them. Read off a sweep that leads from the world \<open>w\<close> to the world
  \<open>w'\<close> with the list \<open>results\<close>: \<open>upCount\<close> is the script's \<open>up_count\<close>;
  \<open>errorCount\<close> is the number of probes that raised, which are the \<open>ERROR\<close> records the
  sweep logged; \<open>downCount\<close> is the number of hosts recorded as down whose probe did not
  raise.
\<close>

definition errorCount :: "world \<Rightarrow> world \<Rightarrow> nat" where
  "errorCount w w' = error_count (logged w') - error_count (logged w)"

definition downCount :: "(string \<times> bool) list \<Rightarrow> world \<Rightarrow> world \<Rightarrow> nat" where
  "downCount results w w' = down_count results - errorCount w w'"

text \<open>The commands run between a world and a later one.\<close>

definition dispatched :: "world \<Rightarrow> world \<Rightarrow> string list list" where
  "dispatched w w' = drop (length (spawned w)) (spawned w')"

text \<open>The records that one pass of the loop body logs for a future.\<close>

definition loop_log :: "bool \<Rightarrow> future \<Rightarrow> log_record list" where
  "loop_log q future =
     (case future of (ip, fut) \<Rightarrow>
        (case fut of Inr r \<Rightarrow> [] | Inl exc \<Rightarrow> [(ERROR, ''Error pinging %s: %s'', [S ip, S (str_exn exc)])]) @
        (if q then [] else [(INFO, if up_of fut then ''%s is UP'' else ''%s is DOWN'', [S ip])]))"

subsection \<open>Example worlds\<close>

text \<open>
  Three networks as \<open>ip_network\<close> splits them: \<open>10.0.0.0/30\<close>, \<open>10.0.0.0/32\<close> and
  \<open>10.0.0.5/31\<close>; the address \<open>10.0.0.0\<close> is the integer \<open>0x0A000000\<close>.
\<close>

definition example_parse :: "string \<Rightarrow> exn + (32 word \<times> nat)" where
  "example_parse s =
     (if s = ''10.0.0.0/30'' then Inr (0x0A000000, 30)
      else if s = ''10.0.0.0/32'' then Inr (0x0A000000, 32)
      else if s = ''10.0.0.5/31'' then Inr (0x0A000005, 31)
      else Inl (ValueError ''does not appear to be an IPv4 or IPv6 network''))"

text \<open>A Linux machine without a \<open>ping\<close> binary: every \<open>subprocess.run\<close> raises.\<close>

definition world_no_ping :: world where
  "world_no_ping =
     \<lparr>system = ''Linux'', parse_network = example_parse,
      respond = (\<lambda>cmd. Inl FileNotFoundError),
      schedule = [], spawned = [], logged = []\<rparr>"

text \<open>
  A Linux machine on which \<open>10.0.0.1\<close> answers, every other host does not, and the
  second pending future completes first.
\<close>

definition world_one_up :: world where
  "world_one_up =
     \<lparr>system = ''Linux'', parse_network = example_parse,
      respond = (\<lambda>cmd. if last cmd = ''10.0.0.1'' then Inr 0 else Inr 1),
      schedule = [1], spawned = [], logged = []\<rparr>"

text \<open>A Windows machine on which starting \<open>ping\<close> fails for \<open>10.0.0.2\<close> only.\<close>

definition world_flaky :: world where
  "world_flaky =
     \<lparr>system = ''Windows'', parse_network = example_parse,
      respond = (\<lambda>cmd. if last cmd = ''10.0.0.2'' then Inl (OSError ''Permission denied'') else Inr 0),
      schedule = [], spawned = [], logged = []\<rparr>"

definition args_30 :: args where
  "args_30 = \<lparr>network = ''10.0.0.0/30'', threads = 32, timeout = 300, quiet = False\<rparr>"

section \<open>Properties\<close>

subsection \<open>One probe\<close>

lemma ping_once_snd:
  "snd (ping_once w ip t) = w\<lparr>spawned := spawned w @ [get_ping_command (system w) ip t]\<rparr>"
  by (simp add: ping_once_def subprocess_run_def Let_def split: sum.splits exn.splits)

lemma ping_once_fst:
  "fst (ping_once w ip t) =
     (case respond w (get_ping_command (system w) ip t) of
        Inr returncode \<Rightarrow> Inr (returncode = 0)
      | Inl FileNotFoundError \<Rightarrow>
          Inl (RuntimeError (CHR 0x27 # ''ping'' @ CHR 0x27 # '' command not found on this system''))
      | Inl e \<Rightarrow> Inl e)"
  by (simp add: ping_once_def subprocess_run_def Let_def split: sum.splits exn.splits)

lemma ping_once_fst_cong:
  "respond w' = respond w \<Longrightarrow> system w' = system w \<Longrightarrow>
   fst (ping_once w' ip t) = fst (ping_once w ip t)"
  by (simp add: ping_once_fst)

lemma up_of_ping_once:
  "up_of (fst (ping_once w ip t)) = (respond w (get_ping_command (system w) ip t) = Inr 0)"
  by (auto simp add: ping_once_fst up_of_def split: sum.splits exn.splits)

lemma submit_all_eq:
  "submit_all w hs t =
     (map (\<lambda>ip. (ip, fst (ping_once w ip t))) hs,
      w\<lparr>spawned := spawned w @ map (\<lambda>ip. get_ping_command (system w) ip t) hs\<rparr>)"
proof (induction hs arbitrary: w)
  case Nil
  show ?case by simp
next
  case (Cons ip ips)
  obtain r w1 where p: "ping_once w ip t = (r, w1)"
    by (cases "ping_once w ip t")
  have w1: "w1 = w\<lparr>spawned := spawned w @ [get_ping_command (system w) ip t]\<rparr>"
    using ping_once_snd [of w ip t] p by simp
  have r: "r = fst (ping_once w ip t)"
    using p by simp
  have same: "\<And>x. fst (ping_once w1 x t) = fst (ping_once w x t)"
    by (rule ping_once_fst_cong) (simp_all add: w1)
  show ?case
    by (simp add: p Cons.IH same) (simp add: w1 r)
qed

lemma nth_remove_nth_mset:
  "i < length xs \<Longrightarrow> mset (xs ! i # remove_nth i xs) = mset xs"
proof -
  assume i: "i < length xs"
  have "xs = take i xs @ xs ! i # drop (Suc i) xs"
    using i by (simp add: id_take_nth_drop)
  then have "mset xs = mset (take i xs @ xs ! i # drop (Suc i) xs)"
    by simp
  then show ?thesis
    by (simp add: remove_nth_def)
qed

lemma pick_less: "0 < n \<Longrightarrow> pick sched n < n"
  by (simp add: pick_def split: list.splits)

lemma mset_as_completed: "mset (fst (as_completed sched fs)) = mset fs"
proof (induction sched fs rule: as_completed.induct)
  case (1 sched)
  show ?case by simp
next
  case (2 sched f fs)
  define i where "i = pick sched (length (f # fs))"
  have i: "i < length (f # fs)"
    unfolding i_def by (rule pick_less) simp
  obtain rest sched' where ac: "as_completed (tl sched) (remove_nth i (f # fs)) = (rest, sched')"
    by (cases "as_completed (tl sched) (remove_nth i (f # fs))")
  have "mset rest = mset (remove_nth i (f # fs))"
    using "2.IH" [OF i_def] ac by simp
  moreover have "fst (as_completed sched (f # fs)) = (f # fs) ! i # rest"
    using ac by (simp add: i_def Let_def)
  ultimately show ?case
    using nth_remove_nth_mset [OF i] by (simp del: length_Cons nth_Cons_Suc nth_Cons_0 add: )
qed


lemma ping_once_logging:
  "fst (ping_once (logging lv fmt as w) ip t) = fst (ping_once w ip t)"
  by (rule ping_once_fst_cong) (simp_all add: logging_def)

lemma logging_fields:
  "spawned (logging lv fmt as w) = spawned w"
  "schedule (logging lv fmt as w) = schedule w"
  "system (logging lv fmt as w) = system w"
  "respond (logging lv fmt as w) = respond w"
  "parse_network (logging lv fmt as w) = parse_network w"
  "logged (logging lv fmt as w) = logged w @ [(lv, fmt, as)]"
  by (simp_all add: logging_def)

lemma loop_body_fst:
  "fst (loop_body q (ip, fut) (rs, w)) = rs @ [(ip, up_of fut)]"
  by (simp add: loop_body_def up_of_def Let_def split: sum.splits)

lemma loop_body_logged:
  "logged (snd (loop_body q (ip, fut) (rs, w))) = logged w @ loop_log q (ip, fut)"
  by (simp add: loop_body_def loop_log_def up_of_def Let_def logging_fields split: sum.splits)

lemma loop_body_fields:
  "spawned (snd (loop_body q (ip, fut) (rs, w))) = spawned w"
  "schedule (snd (loop_body q (ip, fut) (rs, w))) = schedule w"
  "system (snd (loop_body q (ip, fut) (rs, w))) = system w"
  "respond (snd (loop_body q (ip, fut) (rs, w))) = respond w"
  "parse_network (snd (loop_body q (ip, fut) (rs, w))) = parse_network w"
  by (simp_all add: loop_body_def Let_def logging_fields split: sum.splits)

lemma fold_loop_body_fst:
  "fst (fold (loop_body q) fs (rs, w)) = rs @ map (\<lambda>(ip, fut). (ip, up_of fut)) fs"
proof (induction fs arbitrary: rs w)
  case Nil
  show ?case by simp
next
  case (Cons f fs)
  obtain ip fut where f: "f = (ip, fut)" by (cases f)
  obtain rs1 w1 where st: "loop_body q (ip, fut) (rs, w) = (rs1, w1)"
    by (cases "loop_body q (ip, fut) (rs, w)")
  have "rs1 = rs @ [(ip, up_of fut)]"
    using loop_body_fst [of q ip fut rs w] st by simp
  then show ?case
    by (simp add: f st Cons.IH)
qed

lemma fold_loop_body_logged:
  "logged (snd (fold (loop_body q) fs (rs, w))) = logged w @ concat (map (loop_log q) fs)"
proof (induction fs arbitrary: rs w)
  case Nil
  show ?case by simp
next
  case (Cons f fs)
  obtain ip fut where f: "f = (ip, fut)" by (cases f)
  obtain rs1 w1 where st: "loop_body q (ip, fut) (rs, w) = (rs1, w1)"
    by (cases "loop_body q (ip, fut) (rs, w)")
  have "logged w1 = logged w @ loop_log q (ip, fut)"
    using loop_body_logged [of q ip fut rs w] st by simp
  then show ?case
    by (simp add: f st Cons.IH)
qed

lemma fold_loop_body_fields:
  "spawned (snd (fold (loop_body q) fs (rs, w))) = spawned w \<and>
   schedule (snd (fold (loop_body q) fs (rs, w))) = schedule w \<and>
   system (snd (fold (loop_body q) fs (rs, w))) = system w \<and>
   respond (snd (fold (loop_body q) fs (rs, w))) = respond w \<and>
   parse_network (snd (fold (loop_body q) fs (rs, w))) = parse_network w"
proof (induction fs arbitrary: rs w)
  case Nil
  show ?case by simp
next
  case (Cons f fs)
  obtain ip fut where f: "f = (ip, fut)" by (cases f)
  obtain rs1 w1 where st: "loop_body q (ip, fut) (rs, w) = (rs1, w1)"
    by (cases "loop_body q (ip, fut) (rs, w)")
  have "spawned w1 = spawned w" "schedule w1 = schedule w" "system w1 = system w"
    "respond w1 = respond w" "parse_network w1 = parse_network w"
    using loop_body_fields [of q ip fut rs w] st by simp_all
  then show ?case
    by (simp add: f st Cons.IH)
qed

subsection \<open>The whole sweep\<close>

lemma sweep_network_parse_error:
  "parse_network w cidr = Inl e \<Longrightarrow> sweep_network w cidr n t q = (Inl e, w)"
  by (simp add: sweep_network_def)

lemma sweep_network_no_workers:
  "parse_network w cidr = Inr (a, p) \<Longrightarrow> n \<le> 0 \<Longrightarrow>
   fst (sweep_network w cidr n t q) = Inl (ValueError ''max_workers must be greater than 0'')"
  by (simp add: sweep_network_def Let_def)

lemma sweep_network_run:
  assumes "parse_network w cidr = Inr (a, p)" and "0 < n"
  shows "sweep_network w cidr n t q =
     (let hs = map str_ip (hosts (IPv4Network a p));
          w1 = logging INFO ''Starting sweep of %s (%d hosts) with %d threads''
                 [S cidr, I (int (length hs)), I n] w;
          ac = as_completed (schedule w) (map (\<lambda>ip. (ip, fst (ping_once w ip t))) hs);
          w2 = w1\<lparr>spawned := spawned w @ map (\<lambda>ip. get_ping_command (system w) ip t) hs\<rparr>;
          st = fold (loop_body q) (fst ac) ([], w2\<lparr>schedule := snd ac\<rparr>)
      in (Inr (fst st), snd st))"
  using assms
  by (simp add: sweep_network_def Let_def submit_all_eq ping_once_logging logging_fields case_prod_beta)

lemma sweep_network_results:
  assumes "parse_network w cidr = Inr (a, p)" and "0 < n"
  shows "fst (sweep_network w cidr n t q) =
           Inr (map (\<lambda>(ip, fut). (ip, up_of fut))
                  (fst (as_completed (schedule w)
                     (map (\<lambda>ip. (ip, fst (ping_once w ip t))) (map str_ip (hosts (IPv4Network a p)))))))"
  by (simp add: sweep_network_run [OF assms] Let_def fold_loop_body_fst)

lemma sweep_network_spawned:
  assumes "parse_network w cidr = Inr (a, p)" and "0 < n"
  shows "spawned (snd (sweep_network w cidr n t q)) =
           spawned w @ map (\<lambda>ip. get_ping_command (system w) ip t)
                         (map str_ip (hosts (IPv4Network a p)))"
  by (simp add: sweep_network_run [OF assms] Let_def fold_loop_body_fields)

lemma sweep_network_logged:
  assumes "parse_network w cidr = Inr (a, p)" and "0 < n"
  shows "logged (snd (sweep_network w cidr n t q)) =
           logged w @
           (INFO, ''Starting sweep of %s (%d hosts) with %d threads'',
              [S cidr, I (int (length (hosts (IPv4Network a p)))), I n]) #
           concat (map (loop_log q)
             (fst (as_completed (schedule w)
                (map (\<lambda>ip. (ip, fst (ping_once w ip t))) (map str_ip (hosts (IPv4Network a p)))))))"
  by (simp add: sweep_network_run [OF assms] Let_def fold_loop_body_logged logging_fields)

lemma sweep_network_oracles:
  "respond (snd (sweep_network w cidr n t q)) = respond w \<and>
   system (snd (sweep_network w cidr n t q)) = system w \<and>
   parse_network (snd (sweep_network w cidr n t q)) = parse_network w"
proof (cases "parse_network w cidr")
  case (Inl e)
  then show ?thesis by (simp add: sweep_network_parse_error)
next
  case (Inr ap)
  obtain a p where ap: "ap = (a, p)" by (cases ap)
  show ?thesis
  proof (cases "0 < n")
    case True
    show ?thesis
      by (simp add: sweep_network_run [OF Inr [unfolded ap] True] Let_def fold_loop_body_fields logging_fields)
  next
    case False
    then show ?thesis
      using Inr by (simp add: sweep_network_def Let_def ap logging_fields)
  qed
qed

subsection \<open>The timeout handed to \<open>ping\<close>\<close>

lemma neg_div_1000: "- (- t div 1000) = ((t::int) + 999) div 1000"
proof -
  define q where "q = (t + 999) div 1000"
  define r where "r = (t + 999) mod 1000"
  have e: "t + 999 = 1000 * q + r"
    by (simp add: q_def r_def)
  have r: "0 \<le> r" "r < 1000"
    by (simp_all add: r_def)
  have "- t = 1000 * (- q) + (999 - r)"
    using e by linarith
  moreover have "0 \<le> 999 - r" "999 - r < 1000"
    using r by linarith+
  ultimately have "- t div 1000 = - q"
    by (rule int_div_pos_eq)
  then show ?thesis
    by (simp add: q_def)
qed

lemma unix_secs_ceiling: "unix_secs t = max 1 \<lceil>real_of_int t / 1000\<rceil>"
proof -
  have "\<lceil>real_of_int t / real_of_int 1000\<rceil> = - (- t div 1000)"
    by (rule ceiling_divide_eq_div)
  then show ?thesis
    by (simp add: unix_secs_def neg_div_1000)
qed

lemma unix_secs_small: "t \<le> 1000 \<Longrightarrow> unix_secs t = 1"
proof -
  assume "t \<le> 1000"
  then have "(t + 999) div 1000 \<le> 1999 div 1000"
    by (intro zdiv_mono1) simp_all
  then show ?thesis
    by (simp add: unix_secs_def)
qed

lemma str_int_1: "str_int 1 = ''1''"
  by (simp add: str_int_def str_nat.simps digit_char_def)


text \<open>
  Claim C10. On a system other than Windows the timeout in milliseconds becomes whole
  seconds, the ceiling of \<open>timeout_ms / 1000\<close> and at least 1, and that number is the
  argument of \<open>-W\<close>; so every timeout of at most 1000 ms is handed over as \<open>1\<close>.
\<close>

theorem unix_timeout_is_ceiling_seconds:
  "sys \<noteq> ''Windows'' \<Longrightarrow>
     unix_secs t = max 1 \<lceil>real_of_int t / 1000\<rceil> \<and>
     get_ping_command sys ip t = [''ping'', ''-c'', ''1'', ''-W'', str_int (max 1 \<lceil>real_of_int t / 1000\<rceil>), ip] \<and>
     (t \<le> 1000 \<longrightarrow> get_ping_command sys ip t = [''ping'', ''-c'', ''1'', ''-W'', ''1'', ip])"
proof -
  assume sys: "sys \<noteq> ''Windows''"
  have cmd: "get_ping_command sys ip t = [''ping'', ''-c'', ''1'', ''-W'', str_int (unix_secs t), ip]"
    using sys by (simp add: get_ping_command_def Let_def)
  have small: "t \<le> 1000 \<longrightarrow> get_ping_command sys ip t = [''ping'', ''-c'', ''1'', ''-W'', ''1'', ip]"
    unfolding cmd by (simp add: unix_secs_small str_int_1)
  have "get_ping_command sys ip t =
      [''ping'', ''-c'', ''1'', ''-W'', str_int (max 1 \<lceil>real_of_int t / 1000\<rceil>), ip]"
    unfolding cmd unix_secs_ceiling ..
  with small unix_secs_ceiling [of t] show ?thesis
    by blast
qed

theorem unix_timeout_is_ceiling_seconds_witness:
  "''Linux'' \<noteq> ''Windows'' \<and> (300 :: int) \<le> 1000 \<and>
   get_ping_command ''Linux'' ''10.0.0.1'' 300 = [''ping'', ''-c'', ''1'', ''-W'', ''1'', ''10.0.0.1''] \<and>
   unix_secs 2500 = 3 \<and>
   get_ping_command ''Linux'' ''10.0.0.1'' 2500 = [''ping'', ''-c'', ''1'', ''-W'', ''3'', ''10.0.0.1'']"
proof -
  have l: "''Linux'' \<noteq> ''Windows''" by simp
  have c: "\<lceil>real_of_int 2500 / 1000\<rceil> = 3" by (simp add: ceiling_eq_iff)
  have s3: "str_int 3 = ''3''" by (simp add: str_int_def str_nat.simps digit_char_def)
  show ?thesis
    using unix_timeout_is_ceiling_seconds [OF l, of 300 "''10.0.0.1''"]
      unix_timeout_is_ceiling_seconds [OF l, of 2500 "''10.0.0.1''"] c s3 str_int_1
    by simp
qed

text \<open>
  Claim C6. \<open>ping_once\<close> runs the external command exactly once, and that command sends a
  single echo request (\<open>-c 1\<close> or \<open>-n 1\<close>); it returns \<open>True\<close> exactly when the exit
  status is zero, and \<open>False\<close> for every other exit status.
\<close>

theorem ping_once_single_probe:
  "dispatched w (snd (ping_once w ip t)) = [get_ping_command (system w) ip t] \<and>
   get_ping_command (system w) ip t ! 1 \<in> {''-c'', ''-n''} \<and>
   get_ping_command (system w) ip t ! 2 = ''1'' \<and>
   (fst (ping_once w ip t) = Inr True
      \<longleftrightarrow> respond w (get_ping_command (system w) ip t) = Inr 0) \<and>
   (\<forall>rc. respond w (get_ping_command (system w) ip t) = Inr rc \<and> rc \<noteq> 0
      \<longrightarrow> fst (ping_once w ip t) = Inr False)"
proof -
  have "dispatched w (snd (ping_once w ip t)) = [get_ping_command (system w) ip t]"
    by (simp add: ping_once_snd dispatched_def)
  moreover have "get_ping_command (system w) ip t ! 1 \<in> {''-c'', ''-n''}"
    and "get_ping_command (system w) ip t ! 2 = ''1''"
    by (simp_all add: get_ping_command_def Let_def)
  moreover have "fst (ping_once w ip t) = Inr True
      \<longleftrightarrow> respond w (get_ping_command (system w) ip t) = Inr 0"
    by (simp add: ping_once_fst split: sum.splits exn.splits)
  moreover have "\<forall>rc. respond w (get_ping_command (system w) ip t) = Inr rc \<and> rc \<noteq> 0
      \<longrightarrow> fst (ping_once w ip t) = Inr False"
    by (simp add: ping_once_fst)
  ultimately show ?thesis
    by blast
qed

subsection \<open>Concrete networks and commands\<close>

lemma net30: "IPv4Network 0x0A000000 30 = \<lparr>addr = 0x0A000000, network_address = 0x0A000000, prefixlen = 30\<rparr>"
  by (simp add: IPv4Network_def ip_int_from_prefix_def ALL_ONES_def)

lemma hosts_30: "map str_ip (hosts (IPv4Network 0x0A000000 30)) = [''10.0.0.1'', ''10.0.0.2'']"
  by (simp add: net30 hosts_def broadcast_address_def hostmask_def ip_int_from_prefix_def ALL_ONES_def upt_rec
       str_ip_def to_bytes4_def str_nat.simps digit_char_def)

lemma length_hosts_30: "length (hosts (IPv4Network 0x0A000000 30)) = 2"
  using arg_cong [OF hosts_30, of length] by simp

lemma hosts_32: "map str_ip (hosts (IPv4Network 0x0A000000 32)) = [''10.0.0.0'']"
  by (simp add: IPv4Network_def hosts_def Let_def str_ip_def to_bytes4_def str_nat.simps digit_char_def)

lemma cmd_linux_300: "get_ping_command ''Linux'' ip 300 = [''ping'', ''-c'', ''1'', ''-W'', ''1'', ip]"
  by (simp add: get_ping_command_def unix_secs_def str_int_1)


theorem ping_once_single_probe_witness:
  "respond world_one_up (get_ping_command (system world_one_up) ''10.0.0.2'' 300) = Inr 1 \<and>
   (1 :: int) \<noteq> 0 \<and>
   fst (ping_once world_one_up ''10.0.0.2'' 300) = Inr False \<and>
   fst (ping_once world_one_up ''10.0.0.1'' 300) = Inr True \<and>
   dispatched world_one_up (snd (ping_once world_one_up ''10.0.0.2'' 300)) =
     [[''ping'', ''-c'', ''1'', ''-W'', ''1'', ''10.0.0.2'']]"
proof -
  have s: "system world_one_up = ''Linux''"
    by (simp add: world_one_up_def)
  have r2: "respond world_one_up (get_ping_command ''Linux'' ''10.0.0.2'' 300) = Inr 1"
    by (simp add: world_one_up_def cmd_linux_300)
  have r1: "respond world_one_up (get_ping_command ''Linux'' ''10.0.0.1'' 300) = Inr 0"
    by (simp add: world_one_up_def cmd_linux_300)
  show ?thesis
    using ping_once_single_probe [of world_one_up "''10.0.0.2''" 300]
      ping_once_single_probe [of world_one_up "''10.0.0.1''" 300] r1 r2
    by (simp add: s cmd_linux_300)
qed


subsection \<open>Counting results\<close>

lemma sum_list_ones: "sum_list (map (\<lambda>_. 1 :: nat) xs) = length xs"
  by (induction xs) simp_all

lemma up_count_length: "up_count rs = length (filter (\<lambda>(_, up). up) rs)"
  by (simp only: up_count_def sum_list_ones)

lemma down_count_length: "down_count rs = length (filter (\<lambda>(_, up). \<not> up) rs)"
  by (simp only: down_count_def sum_list_ones)

lemma up_down_total: "up_count rs + down_count rs = total_count rs"
  unfolding up_count_length down_count_length total_count_def
  by (induction rs) auto

lemma length_filter_mset: "mset xs = mset ys \<Longrightarrow> length (filter P xs) = length (filter P ys)"
proof -
  assume "mset xs = mset ys"
  then have "mset (filter P xs) = mset (filter P ys)"
    by simp
  then show ?thesis
    by (rule mset_eq_length)
qed

lemma counts_mset:
  assumes "mset r1 = mset r2"
  shows "up_count r1 = up_count r2" and "down_count r1 = down_count r2" and "total_count r1 = total_count r2"
  using assms length_filter_mset [OF assms] mset_eq_length [OF assms]
  by (simp_all add: up_count_length down_count_length total_count_def)

lemma sweep_network_mset:
  assumes "parse_network w cidr = Inr (a, p)" and "0 < n"
  shows "\<exists>rs. fst (sweep_network w cidr n t q) = Inr rs \<and>
           mset rs = mset (map (\<lambda>ip. (ip, respond w (get_ping_command (system w) ip t) = Inr 0))
                            (map str_ip (hosts (IPv4Network a p))))"
proof -
  let ?hs = "map str_ip (hosts (IPv4Network a p))"
  let ?fs = "map (\<lambda>ip. (ip, fst (ping_once w ip t))) ?hs"
  let ?g = "\<lambda>(ip, fut). (ip, up_of fut)"
  have "mset (map ?g (fst (as_completed (schedule w) ?fs))) = image_mset ?g (mset ?fs)"
    by (simp only: mset_map mset_as_completed)
  also have "\<dots> = mset (map ?g ?fs)"
    by (simp only: mset_map)
  also have "map ?g ?fs = map (\<lambda>ip. (ip, respond w (get_ping_command (system w) ip t) = Inr 0)) ?hs"
    by (simp add: o_def up_of_ping_once)
  finally show ?thesis
    using sweep_network_results [OF assms, of t q] by simp
qed

lemma sweep_network_Inr_D:
  assumes "fst (sweep_network w cidr n t q) = Inr rs"
  shows "\<exists>a p. parse_network w cidr = Inr (a, p) \<and> 0 < n"
proof (cases "parse_network w cidr")
  case (Inl e)
  then show ?thesis
    using assms by (simp add: sweep_network_parse_error)
next
  case (Inr ap)
  obtain a p where ap: "ap = (a, p)" by (cases ap)
  have "0 < n"
  proof (rule ccontr)
    assume "\<not> 0 < n"
    then have "n \<le> 0" by simp
    from sweep_network_no_workers [OF Inr [unfolded ap] this, of t q] assms show False
      by simp
  qed
  then show ?thesis
    using Inr ap by simp
qed

subsection \<open>Failures of single probes\<close>

lemma parse_30: "example_parse ''10.0.0.0/30'' = Inr (0x0A000000, 30)"
  by (simp add: example_parse_def)

lemma parse_32: "example_parse ''10.0.0.0/32'' = Inr (0x0A000000, 32)"
  by (simp add: example_parse_def)

lemma in_set_map_pair: "x \<in> set xs \<Longrightarrow> (x, f x) \<in> set (map (\<lambda>x. (x, f x)) xs)"
  by (induction xs) auto

lemma main_parse_ok:
  assumes "parse_network w (network ar) = Inr (a, p)"
  shows "\<exists>rs. fst (sweep_network w (network ar) (max 1 (threads ar)) (max 1 (timeout ar)) (quiet ar)) = Inr rs \<and>
     main w ar = (Exit 0, logging INFO ''Scan finished: %d/%d hosts up (%.1fs)''
                     [I (int (up_count rs)), I (int (total_count rs)), Elapsed]
                     (snd (sweep_network w (network ar) (max 1 (threads ar)) (max 1 (timeout ar)) (quiet ar))))"
proof -
  have n: "0 < max 1 (threads ar)" by simp
  from sweep_network_mset [OF assms n, of "max 1 (timeout ar)" "quiet ar"]
  obtain rs where rs: "fst (sweep_network w (network ar) (max 1 (threads ar)) (max 1 (timeout ar)) (quiet ar)) = Inr rs"
    by blast
  obtain x w1 where sw: "sweep_network w (network ar) (max 1 (threads ar)) (max 1 (timeout ar)) (quiet ar) = (x, w1)"
    by (cases "sweep_network w (network ar) (max 1 (threads ar)) (max 1 (timeout ar)) (quiet ar)")
  have x: "x = Inr rs" using rs sw by simp
  have "main w ar = (Exit 0, logging INFO ''Scan finished: %d/%d hosts up (%.1fs)''
                     [I (int (up_count rs)), I (int (total_count rs)), Elapsed] w1)"
    by (simp add: main_def sw x)
  then show ?thesis
    using rs sw by simp
qed

lemma main_parse_error:
  assumes "parse_network w (network ar) = Inl e"
  shows "snd (main w ar) = (case e of RuntimeError m \<Rightarrow> logging CRITICAL m [] w | _ \<Rightarrow> w)"
  by (simp add: main_def sweep_network_parse_error [OF assms] split: exn.splits)

text \<open>
  Claim C5. When the network is valid, \<open>sweep_network\<close> returns a result list and
  \<open>main\<close> ends with exit status 0, whatever the probes do: no failure of a probe reaches
  the caller or stops the sweep. The list holds every host once, each with an outcome
  that depends on the answer to that host's own command only, and a host whose probe
  did not exit with status 0 (a non-zero status or an exception) is recorded as down.
\<close>

theorem probe_failures_are_contained:
  assumes "parse_network w (network ar) = Inr (a, p)"
  shows "\<exists>results.
     fst (sweep_network w (network ar) (max 1 (threads ar)) (max 1 (timeout ar)) (quiet ar)) = Inr results \<and>
     fst (main w ar) = Exit 0 \<and>
     mset results =
       mset (map (\<lambda>ip. (ip, respond w (get_ping_command (system w) ip (max 1 (timeout ar))) = Inr 0))
              (map str_ip (hosts (IPv4Network a p)))) \<and>
     (\<forall>ip \<in> set (map str_ip (hosts (IPv4Network a p))).
        respond w (get_ping_command (system w) ip (max 1 (timeout ar))) \<noteq> Inr 0
          \<longrightarrow> (ip, False) \<in> set results)"
proof -
  let ?t = "max 1 (timeout ar)"
  let ?hs = "map str_ip (hosts (IPv4Network a p))"
  have n: "0 < max 1 (threads ar)" by simp
  from sweep_network_mset [OF assms n, of ?t "quiet ar"]
  obtain rs where rs: "fst (sweep_network w (network ar) (max 1 (threads ar)) ?t (quiet ar)) = Inr rs"
    and ms: "mset rs = mset (map (\<lambda>ip. (ip, respond w (get_ping_command (system w) ip ?t) = Inr 0)) ?hs)"
    by blast
  from main_parse_ok [OF assms] rs have m: "fst (main w ar) = Exit 0"
    by auto
  have "(ip, False) \<in> set rs"
    if "ip \<in> set ?hs" and "respond w (get_ping_command (system w) ip ?t) \<noteq> Inr 0" for ip
  proof -
    have "(ip, respond w (get_ping_command (system w) ip ?t) = Inr 0)
        \<in> set (map (\<lambda>ip. (ip, respond w (get_ping_command (system w) ip ?t) = Inr 0)) ?hs)"
      using that(1) by (rule in_set_map_pair)
    then have "(ip, False) \<in> set (map (\<lambda>ip. (ip, respond w (get_ping_command (system w) ip ?t) = Inr 0)) ?hs)"
      using that(2) by simp
    then show ?thesis
      using mset_eq_setD [OF ms] by simp
  qed
  with rs m ms show ?thesis
    by blast
qed

lemma str_int_300: "str_int 300 = ''300''"
  by (simp add: str_int_def str_nat.simps digit_char_def)

lemma cmd_windows_300: "get_ping_command ''Windows'' ip 300 = [''ping'', ''-n'', ''1'', ''-w'', ''300'', ip]"
  by (simp add: get_ping_command_def str_int_300)

lemma as_completed_single: "fst (as_completed s [x]) = [x]"
  by (simp add: pick_def remove_nth_def split: list.splits)

lemma sweep_flaky:
  "fst (sweep_network world_flaky ''10.0.0.0/30'' 32 300 False) =
     Inr [(''10.0.0.1'', True), (''10.0.0.2'', False)]"
proof -
  have p: "parse_network world_flaky ''10.0.0.0/30'' = Inr (0x0A000000, 30)"
    by (simp add: world_flaky_def parse_30)
  have n: "(0::int) < 32" by simp
  have po: "fst (ping_once world_flaky ''10.0.0.1'' 300) = Inr True"
    "fst (ping_once world_flaky ''10.0.0.2'' 300) = Inl (OSError ''Permission denied'')"
    by (simp_all add: ping_once_fst world_flaky_def cmd_windows_300)
  have sch: "schedule world_flaky = []"
    by (simp add: world_flaky_def)
  show ?thesis
    by (simp add: sweep_network_results [OF p n] hosts_30 po sch pick_def remove_nth_def up_of_def)
qed


theorem probe_failures_are_contained_witness:
  "parse_network world_flaky (network args_30) = Inr (0x0A000000, 30) \<and>
   respond world_flaky (get_ping_command (system world_flaky) ''10.0.0.2'' (max 1 (timeout args_30)))
     = Inl (OSError ''Permission denied'') \<and>
   fst (sweep_network world_flaky (network args_30) (max 1 (threads args_30)) (max 1 (timeout args_30))
          (quiet args_30)) = Inr [(''10.0.0.1'', True), (''10.0.0.2'', False)] \<and>
   fst (main world_flaky args_30) = Exit 0"
proof -
  have p: "parse_network world_flaky (network args_30) = Inr (0x0A000000, 30)"
    by (simp add: world_flaky_def args_30_def parse_30)
  have r: "respond world_flaky (get_ping_command (system world_flaky) ''10.0.0.2'' (max 1 (timeout args_30)))
     = Inl (OSError ''Permission denied'')"
    by (simp add: world_flaky_def args_30_def cmd_windows_300)
  have s: "fst (sweep_network world_flaky (network args_30) (max 1 (threads args_30)) (max 1 (timeout args_30))
          (quiet args_30)) = Inr [(''10.0.0.1'', True), (''10.0.0.2'', False)]"
    using sweep_flaky by (simp add: args_30_def)
  from probe_failures_are_contained [OF p] have "fst (main world_flaky args_30) = Exit 0"
    by blast
  with p r s show ?thesis
    by blast
qed


subsection \<open>Clamping of the timeout\<close>

lemma dispatched_append: "spawned w' = spawned w @ cs \<Longrightarrow> dispatched w w' = cs"
  by (simp add: dispatched_def)

lemma sweep_network_dispatched:
  assumes "parse_network w cidr = Inr (a, p)" and "0 < n"
  shows "dispatched w (snd (sweep_network w cidr n t q)) =
           map (\<lambda>ip. get_ping_command (system w) ip t) (map str_ip (hosts (IPv4Network a p)))"
  by (rule dispatched_append) (rule sweep_network_spawned [OF assms])

lemma main_dispatched:
  assumes "parse_network w (network ar) = Inr (a, p)"
  shows "dispatched w (snd (main w ar)) =
           map (\<lambda>ip. get_ping_command (system w) ip (max 1 (timeout ar)))
             (map str_ip (hosts (IPv4Network a p)))"
proof -
  have n: "0 < max 1 (threads ar)" by simp
  from main_parse_ok [OF assms] obtain rs where
    m: "main w ar = (Exit 0, logging INFO ''Scan finished: %d/%d hosts up (%.1fs)''
                     [I (int (up_count rs)), I (int (total_count rs)), Elapsed]
                     (snd (sweep_network w (network ar) (max 1 (threads ar)) (max 1 (timeout ar)) (quiet ar))))"
    by blast
  show ?thesis
    by (rule dispatched_append)
       (simp add: m logging_fields sweep_network_spawned [OF assms n])
qed

lemma main_dispatched_parse_error:
  assumes "parse_network w (network ar) = Inl e"
  shows "dispatched w (snd (main w ar)) = []"
  by (rule dispatched_append)
     (simp add: main_parse_error [OF assms] logging_fields split: exn.splits)

lemma timeout_argument_1:
  "get_ping_command sys ip 1 ! 3 \<in> {''-W'', ''-w''} \<and> get_ping_command sys ip 1 ! 4 = ''1''"
  by (simp add: get_ping_command_def Let_def unix_secs_small str_int_1)

text \<open>
  Claim C7. A requested timeout of zero or less is replaced by 1 before anything else
  happens: the run is the run with timeout 1, and every command it starts carries the
  timeout argument \<open>1\<close> (after \<open>-W\<close>, or \<open>-w\<close> on Windows).
\<close>

theorem nonpositive_timeout_is_clamped:
  assumes "timeout ar \<le> 0"
  shows "main w ar = main w (ar\<lparr>timeout := 1\<rparr>) \<and>
         (\<forall>cmd \<in> set (dispatched w (snd (main w ar))).
            cmd ! 3 \<in> {''-W'', ''-w''} \<and> cmd ! 4 = ''1'')"
proof -
  have t: "max 1 (timeout ar) = 1"
    using assms by simp
  have eq: "main w ar = main w (ar\<lparr>timeout := 1\<rparr>)"
    by (simp add: main_def t)
  have "\<forall>cmd \<in> set (dispatched w (snd (main w ar))).
          cmd ! 3 \<in> {''-W'', ''-w''} \<and> cmd ! 4 = ''1''"
  proof (cases "parse_network w (network ar)")
    case (Inl e)
    then show ?thesis
      by (simp add: main_dispatched_parse_error)
  next
    case (Inr ap)
    obtain a p where ap: "ap = (a, p)" by (cases ap)
    show ?thesis
      unfolding main_dispatched [OF Inr [unfolded ap]] t
      using timeout_argument_1 by auto
  qed
  with eq show ?thesis ..
qed

theorem nonpositive_timeout_is_clamped_witness:
  "timeout (args_30\<lparr>timeout := - 5\<rparr>) \<le> 0 \<and>
   main world_one_up (args_30\<lparr>timeout := - 5\<rparr>) = main world_one_up (args_30\<lparr>timeout := 1\<rparr>) \<and>
   dispatched world_one_up (snd (main world_one_up (args_30\<lparr>timeout := - 5\<rparr>))) =
     [[''ping'', ''-c'', ''1'', ''-W'', ''1'', ''10.0.0.1''],
      [''ping'', ''-c'', ''1'', ''-W'', ''1'', ''10.0.0.2'']]"
proof -
  have h: "timeout (args_30\<lparr>timeout := - 5\<rparr>) \<le> 0"
    by simp
  have p: "parse_network world_one_up (network (args_30\<lparr>timeout := - 5\<rparr>)) = Inr (0x0A000000, 30)"
    by (simp add: world_one_up_def args_30_def parse_30)
  have c: "get_ping_command ''Linux'' ip 1 = [''ping'', ''-c'', ''1'', ''-W'', ''1'', ip]" for ip
    by (simp add: get_ping_command_def unix_secs_small str_int_1)
  have d: "dispatched world_one_up (snd (main world_one_up (args_30\<lparr>timeout := - 5\<rparr>))) =
     [[''ping'', ''-c'', ''1'', ''-W'', ''1'', ''10.0.0.1''],
      [''ping'', ''-c'', ''1'', ''-W'', ''1'', ''10.0.0.2'']]"
    unfolding main_dispatched [OF p] hosts_30
    by (simp add: world_one_up_def c)
  show ?thesis
    using nonpositive_timeout_is_clamped [OF h, of world_one_up] d h by simp
qed

subsection \<open>Completion order\<close>

text \<open>
  The schedule reaches every order: whatever permutation of the submitted futures is
  given, some schedule makes \<open>as_completed\<close> yield them in that order.
\<close>

lemma as_completed_any_order:
  "mset ys = mset fs \<Longrightarrow> \<exists>sched. fst (as_completed sched fs) = ys"
proof (induction ys arbitrary: fs)
  case Nil
  then show ?case by simp
next
  case (Cons y ys)
  from Cons.prems have "y \<in> set fs"
    by (metis list.set_intros(1) mset_eq_setD)
  then obtain i where i: "i < length fs" and y: "fs ! i = y"
    by (auto simp add: in_set_conv_nth)
  from i obtain f fs' where fs: "fs = f # fs'"
    by (cases fs) auto
  have "mset (fs ! i # remove_nth i fs) = mset fs"
    by (rule nth_remove_nth_mset [OF i])
  with Cons.prems y have "add_mset y (mset ys) = add_mset y (mset (remove_nth i fs))"
    by simp
  then have "mset ys = mset (remove_nth i fs)"
    by (simp only: add_mset_add_mset_same_iff)
  from Cons.IH [OF this] obtain sched where s: "fst (as_completed sched (remove_nth i fs)) = ys"
    by blast
  have p: "pick (i # sched) (length fs) = i"
    using i by (simp add: pick_def)
  have "fst (as_completed (i # sched) fs) = y # ys"
    using s y p unfolding fs by (simp add: Let_def case_prod_beta del: length_Cons nth_Cons_Suc)
  then show ?case
    by blast
qed

text \<open>
  Claim C9. Two sweeps of the same network, the second in the world the first one left
  and with any schedule of completions, both against the same answers of the prober:
  the results are the same up to order, so the counts of up hosts, of down hosts and of
  all hosts agree.
\<close>

theorem counts_independent_of_completion_order:
  assumes "fst (sweep_network w cidr n t q) = Inr r1"
    and "fst (sweep_network (snd (sweep_network w cidr n t q)\<lparr>schedule := s2\<rparr>) cidr n t q') = Inr r2"
  shows "up_count r1 = up_count r2 \<and> down_count r1 = down_count r2 \<and>
         total_count r1 = total_count r2 \<and> mset r1 = mset r2"
proof -
  let ?w' = "snd (sweep_network w cidr n t q)\<lparr>schedule := s2\<rparr>"
  from sweep_network_Inr_D [OF assms(1)] obtain a p where
    p: "parse_network w cidr = Inr (a, p)" and n: "0 < n"
    by blast
  have same: "respond ?w' = respond w" "system ?w' = system w" "parse_network ?w' = parse_network w"
    using sweep_network_oracles [of w cidr n t q] by simp_all
  have p': "parse_network ?w' cidr = Inr (a, p)"
    using p same by simp
  from sweep_network_mset [OF p n, of t q] assms(1)
  have m1: "mset r1 = mset (map (\<lambda>ip. (ip, respond w (get_ping_command (system w) ip t) = Inr 0))
                            (map str_ip (hosts (IPv4Network a p))))"
    by simp
  from sweep_network_mset [OF p' n, of t q'] assms(2)
  have m2: "mset r2 = mset (map (\<lambda>ip. (ip, respond w (get_ping_command (system w) ip t) = Inr 0))
                            (map str_ip (hosts (IPv4Network a p))))"
    by (simp add: same)
  have m: "mset r1 = mset r2"
    using m1 m2 by simp
  from counts_mset [OF m] m show ?thesis
    by blast
qed

theorem counts_independent_of_completion_order_witness:
  "fst (sweep_network world_one_up ''10.0.0.0/30'' 32 300 True) =
     Inr [(''10.0.0.2'', False), (''10.0.0.1'', True)] \<and>
   fst (sweep_network (snd (sweep_network world_one_up ''10.0.0.0/30'' 32 300 True)\<lparr>schedule := []\<rparr>)
          ''10.0.0.0/30'' 32 300 True) =
     Inr [(''10.0.0.1'', True), (''10.0.0.2'', False)] \<and>
   up_count [(''10.0.0.2'', False), (''10.0.0.1'', True)] =
     up_count [(''10.0.0.1'', True), (''10.0.0.2'', False)] \<and>
   total_count [(''10.0.0.2'', False), (''10.0.0.1'', True)] =
     total_count [(''10.0.0.1'', True), (''10.0.0.2'', False)]"
proof -
  let ?w' = "snd (sweep_network world_one_up ''10.0.0.0/30'' 32 300 True)\<lparr>schedule := []\<rparr>"
  have p: "parse_network world_one_up ''10.0.0.0/30'' = Inr (0x0A000000, 30)"
    by (simp add: world_one_up_def parse_30)
  have n: "(0::int) < 32" by simp
  have po: "fst (ping_once world_one_up ''10.0.0.1'' 300) = Inr True"
    "fst (ping_once world_one_up ''10.0.0.2'' 300) = Inr False"
    by (simp_all add: ping_once_fst world_one_up_def cmd_linux_300)
  have sch: "schedule world_one_up = [1]"
    by (simp add: world_one_up_def)
  have r1: "fst (sweep_network world_one_up ''10.0.0.0/30'' 32 300 True) =
     Inr [(''10.0.0.2'', False), (''10.0.0.1'', True)]"
    by (simp add: sweep_network_results [OF p n] hosts_30 po sch pick_def remove_nth_def up_of_def)
  have same: "respond ?w' = respond world_one_up" "system ?w' = system world_one_up"
    "parse_network ?w' = parse_network world_one_up"
    using sweep_network_oracles [of world_one_up "''10.0.0.0/30''" 32 300 True] by simp_all
  have p': "parse_network ?w' ''10.0.0.0/30'' = Inr (0x0A000000, 30)"
    using p same by simp
  have po': "fst (ping_once ?w' ip 300) = fst (ping_once world_one_up ip 300)" for ip
    by (rule ping_once_fst_cong) (rule same)+
  have r2: "fst (sweep_network ?w' ''10.0.0.0/30'' 32 300 True) =
     Inr [(''10.0.0.1'', True), (''10.0.0.2'', False)]"
    by (simp add: sweep_network_results [OF p' n] hosts_30 po' po pick_def remove_nth_def up_of_def)
  from counts_independent_of_completion_order [OF r1 r2] r1 r2 show ?thesis
    by blast
qed

subsection \<open>A missing \<open>ping\<close> binary\<close>

lemma parse_no_ping_30: "parse_network world_no_ping ''10.0.0.0/30'' = Inr (0x0A000000, 30)"
  by (simp add: world_no_ping_def parse_30)

lemma ping_once_no_ping:
  "fst (ping_once world_no_ping ip t) =
      Inl (RuntimeError (CHR 0x27 # ''ping'' @ CHR 0x27 # '' command not found on this system''))"
  by (simp add: ping_once_fst world_no_ping_def)

lemma sweep_no_ping_results:
  "fst (sweep_network world_no_ping ''10.0.0.0/30'' 32 300 False) =
     Inr [(''10.0.0.1'', False), (''10.0.0.2'', False)]"
proof -
  have n: "(0::int) < 32" by simp
  have sch: "schedule world_no_ping = []"
    by (simp add: world_no_ping_def)
  show ?thesis
    by (simp add: sweep_network_results [OF parse_no_ping_30 n] hosts_30 ping_once_no_ping sch
          pick_def remove_nth_def up_of_def)
qed

lemma sweep_no_ping_logged:
  "logged (snd (sweep_network world_no_ping ''10.0.0.0/30'' 32 300 False)) =
     [(INFO, ''Starting sweep of %s (%d hosts) with %d threads'', [S ''10.0.0.0/30'', I 2, I 32]),
      (ERROR, ''Error pinging %s: %s'',
        [S ''10.0.0.1'', S (CHR 0x27 # ''ping'' @ CHR 0x27 # '' command not found on this system'')]),
      (INFO, ''%s is DOWN'', [S ''10.0.0.1'']),
      (ERROR, ''Error pinging %s: %s'',
        [S ''10.0.0.2'', S (CHR 0x27 # ''ping'' @ CHR 0x27 # '' command not found on this system'')]),
      (INFO, ''%s is DOWN'', [S ''10.0.0.2''])]"
proof -
  have n: "(0::int) < 32" by simp
  have sch: "schedule world_no_ping = []" and lg: "logged world_no_ping = []"
    by (simp_all add: world_no_ping_def)
  show ?thesis
    by (simp add: sweep_network_logged [OF parse_no_ping_30 n] hosts_30 length_hosts_30 ping_once_no_ping
          sch lg pick_def remove_nth_def loop_log_def up_of_def)
qed

text \<open>
  Claim C1 (the code at a failing input). On a machine without \<open>ping\<close>, sweeping
  \<open>10.0.0.0/30\<close> does not abort: the \<open>RuntimeError\<close> of \<open>ping_once\<close> is caught by the
  \<open>except Exception\<close> of the loop, both hosts are recorded as down, no \<open>CRITICAL\<close> record
  is logged, and the process ends with exit status 0.
\<close>

theorem missing_ping_marks_hosts_down:
  "fst (main world_no_ping args_30) = Exit 0 \<and>
   exit_status (fst (main world_no_ping args_30)) = 0 \<and>
   fst (sweep_network world_no_ping ''10.0.0.0/30'' 32 300 False) =
     Inr [(''10.0.0.1'', False), (''10.0.0.2'', False)] \<and>
   logged (snd (main world_no_ping args_30)) =
     [(INFO, ''Starting sweep of %s (%d hosts) with %d threads'', [S ''10.0.0.0/30'', I 2, I 32]),
      (ERROR, ''Error pinging %s: %s'',
        [S ''10.0.0.1'', S (CHR 0x27 # ''ping'' @ CHR 0x27 # '' command not found on this system'')]),
      (INFO, ''%s is DOWN'', [S ''10.0.0.1'']),
      (ERROR, ''Error pinging %s: %s'',
        [S ''10.0.0.2'', S (CHR 0x27 # ''ping'' @ CHR 0x27 # '' command not found on this system'')]),
      (INFO, ''%s is DOWN'', [S ''10.0.0.2'']),
      (INFO, ''Scan finished: %d/%d hosts up (%.1fs)'', [I 0, I 2, Elapsed])]"
proof -
  obtain w1 where sw: "sweep_network world_no_ping ''10.0.0.0/30'' 32 300 False =
      (Inr [(''10.0.0.1'', False), (''10.0.0.2'', False)], w1)"
    using sweep_no_ping_results
    by (cases "sweep_network world_no_ping ''10.0.0.0/30'' 32 300 False") simp
  have lw1: "logged w1 = logged (snd (sweep_network world_no_ping ''10.0.0.0/30'' 32 300 False))"
    by (simp add: sw)
  have m: "main world_no_ping args_30 =
      (Exit 0, logging INFO ''Scan finished: %d/%d hosts up (%.1fs)'' [I 0, I 2, Elapsed] w1)"
    by (simp add: main_def args_30_def sw up_count_def total_count_def)
  show ?thesis
    by (simp add: m sweep_no_ping_results logging_fields lw1 sweep_no_ping_logged)
qed

subsection \<open>Up, down and errors\<close>

lemma error_count_append: "error_count (xs @ ys) = error_count xs + error_count ys"
  by (simp add: error_count_def)

lemma error_count_loop_log: "error_count (loop_log q (ip, fut)) = (if isl fut then 1 else 0)"
  by (cases fut) (simp_all add: loop_log_def error_count_def)

lemma error_count_loop_logs:
  "error_count (concat (map (loop_log q) fs)) = length (filter (\<lambda>(ip, fut). isl fut) fs)"
proof (induction fs)
  case Nil
  show ?case by (simp add: error_count_def)
next
  case (Cons f fs)
  obtain ip fut where f: "f = (ip, fut)" by (cases f)
  show ?case
    using Cons.IH by (simp add: f error_count_append error_count_loop_log)
qed

lemma isl_ping_once:
  "isl (fst (ping_once w ip t)) = isl (respond w (get_ping_command (system w) ip t))"
  by (simp add: ping_once_fst split: sum.splits exn.splits)

lemma length_filter_split:
  assumes "\<And>x. P x \<longleftrightarrow> Q x \<or> R x" and "\<And>x. \<not> (Q x \<and> R x)"
  shows "length (filter P xs) = length (filter Q xs) + length (filter R xs)"
  using assms by (induction xs) auto

lemma sweep_network_errors:
  assumes "parse_network w cidr = Inr (a, p)" and "0 < n"
  shows "error_count (logged (snd (sweep_network w cidr n t q))) =
           error_count (logged w) +
           length (filter (\<lambda>ip. isl (respond w (get_ping_command (system w) ip t)))
                     (map str_ip (hosts (IPv4Network a p))))"
proof -
  let ?hs = "map str_ip (hosts (IPv4Network a p))"
  let ?fs = "map (\<lambda>ip. (ip, fst (ping_once w ip t))) ?hs"
  let ?done = "fst (as_completed (schedule w) ?fs)"
  have "error_count (logged (snd (sweep_network w cidr n t q))) =
      error_count (logged w) + error_count (concat (map (loop_log q) ?done))"
    unfolding sweep_network_logged [OF assms]
    by (simp add: error_count_def)
  also have "error_count (concat (map (loop_log q) ?done)) = length (filter (\<lambda>(ip, fut). isl fut) ?done)"
    by (rule error_count_loop_logs)
  also have "\<dots> = length (filter (\<lambda>(ip, fut). isl fut) ?fs)"
    by (rule length_filter_mset) (rule mset_as_completed)
  also have "\<dots> = length (filter (\<lambda>ip. isl (respond w (get_ping_command (system w) ip t))) ?hs)"
    by (simp only: filter_map length_map o_def case_prod_conv isl_ping_once)
  finally show ?thesis .
qed

lemma sweep_network_counts:
  assumes "parse_network w cidr = Inr (a, p)" and "fst (sweep_network w cidr n t q) = Inr results"
  shows "up_count results =
           length (filter (\<lambda>ip. respond w (get_ping_command (system w) ip t) = Inr 0)
                     (map str_ip (hosts (IPv4Network a p))))"
    and "down_count results =
           length (filter (\<lambda>ip. respond w (get_ping_command (system w) ip t) \<noteq> Inr 0)
                     (map str_ip (hosts (IPv4Network a p))))"
proof -
  let ?hs = "map str_ip (hosts (IPv4Network a p))"
  let ?g = "\<lambda>ip. respond w (get_ping_command (system w) ip t) = Inr 0"
  from sweep_network_Inr_D [OF assms(2)] have n: "0 < n"
    by blast
  from sweep_network_mset [OF assms(1) n, of t q] assms(2)
  have m: "mset results = mset (map (\<lambda>ip. (ip, ?g ip)) ?hs)"
    by simp
  have "up_count results = length (filter (\<lambda>(_, up). up) (map (\<lambda>ip. (ip, ?g ip)) ?hs))"
    unfolding up_count_length by (rule length_filter_mset [OF m])
  also have "\<dots> = length (filter ?g ?hs)"
    by (simp only: filter_map length_map o_def case_prod_conv)
  finally show "up_count results = length (filter ?g ?hs)" .
  have "down_count results = length (filter (\<lambda>(_, up). \<not> up) (map (\<lambda>ip. (ip, ?g ip)) ?hs))"
    unfolding down_count_length by (rule length_filter_mset [OF m])
  also have "\<dots> = length (filter (\<lambda>ip. \<not> ?g ip) ?hs)"
    by (simp only: filter_map length_map o_def case_prod_conv)
  finally show "down_count results = length (filter (\<lambda>ip. \<not> ?g ip) ?hs)" .
qed

text \<open>
  Claim C3. For every completed sweep the three counts partition the recorded pairs:
  \<open>upCount + downCount + errorCount\<close> is the number of pairs, which is the number of
  hosts. Each count is the size of one of three disjoint classes of hosts: those whose
  command exited with status 0, those whose command exited with another status, and
  those whose probe raised.
\<close>

theorem counts_partition_results:
  assumes "parse_network w cidr = Inr (a, p)"
    and "sweep_network w cidr n t q = (Inr results, w')"
  shows "up_count results + downCount results w w' + errorCount w w' = total_count results \<and>
         total_count results = length (hosts (IPv4Network a p)) \<and>
         up_count results =
           length (filter (\<lambda>ip. respond w (get_ping_command (system w) ip t) = Inr 0)
                     (map str_ip (hosts (IPv4Network a p)))) \<and>
         downCount results w w' =
           length (filter (\<lambda>ip. case respond w (get_ping_command (system w) ip t) of
                                   Inr returncode \<Rightarrow> returncode \<noteq> 0 | Inl exc \<Rightarrow> False)
                     (map str_ip (hosts (IPv4Network a p)))) \<and>
         errorCount w w' =
           length (filter (\<lambda>ip. isl (respond w (get_ping_command (system w) ip t)))
                     (map str_ip (hosts (IPv4Network a p))))"
proof -
  let ?hs = "map str_ip (hosts (IPv4Network a p))"
  let ?ans = "\<lambda>ip. respond w (get_ping_command (system w) ip t)"
  let ?D = "\<lambda>ip. case ?ans ip of Inr returncode \<Rightarrow> returncode \<noteq> 0 | Inl exc \<Rightarrow> False"
  have r: "fst (sweep_network w cidr n t q) = Inr results"
    and w': "snd (sweep_network w cidr n t q) = w'"
    using assms(2) by simp_all
  from sweep_network_Inr_D [OF r] have n: "0 < n"
    by blast
  have e: "errorCount w w' = length (filter (\<lambda>ip. isl (?ans ip)) ?hs)"
    using sweep_network_errors [OF assms(1) n, of t q] by (simp add: errorCount_def w')
  have u: "up_count results = length (filter (\<lambda>ip. ?ans ip = Inr 0) ?hs)"
    and d: "down_count results = length (filter (\<lambda>ip. ?ans ip \<noteq> Inr 0) ?hs)"
    by (rule sweep_network_counts [OF assms(1) r])+
  have "length (filter (\<lambda>ip. ?ans ip \<noteq> Inr 0) ?hs) =
      length (filter ?D ?hs) + length (filter (\<lambda>ip. isl (?ans ip)) ?hs)"
    by (rule length_filter_split) (auto split: sum.splits)
  then have dc: "downCount results w w' = length (filter ?D ?hs)"
    by (simp add: downCount_def d e)
  have sum: "down_count results = downCount results w w' + errorCount w w'"
    using \<open>length (filter (\<lambda>ip. ?ans ip \<noteq> Inr 0) ?hs) =
      length (filter ?D ?hs) + length (filter (\<lambda>ip. isl (?ans ip)) ?hs)\<close>
    by (simp add: d dc e)
  have tot: "up_count results + downCount results w w' + errorCount w w' = total_count results"
    using up_down_total [of results] sum by simp
  have len: "total_count results = length (hosts (IPv4Network a p))"
  proof -
    from sweep_network_mset [OF assms(1) n, of t q] r
    have "mset results = mset (map (\<lambda>ip. (ip, ?ans ip = Inr 0)) ?hs)"
      by simp
    from mset_eq_length [OF this] show ?thesis
      by (simp add: total_count_def)
  qed
  from tot len u dc e show ?thesis
    by blast
qed

theorem counts_partition_results_witness:
  "parse_network world_flaky ''10.0.0.0/30'' = Inr (0x0A000000, 30) \<and>
   fst (sweep_network world_flaky ''10.0.0.0/30'' 32 300 False) =
     Inr [(''10.0.0.1'', True), (''10.0.0.2'', False)] \<and>
   up_count [(''10.0.0.1'', True), (''10.0.0.2'', False)] = 1 \<and>
   downCount [(''10.0.0.1'', True), (''10.0.0.2'', False)] world_flaky
     (snd (sweep_network world_flaky ''10.0.0.0/30'' 32 300 False)) = 0 \<and>
   errorCount world_flaky (snd (sweep_network world_flaky ''10.0.0.0/30'' 32 300 False)) = 1 \<and>
   total_count [(''10.0.0.1'', True), (''10.0.0.2'', False)] = 2"
proof -
  have p: "parse_network world_flaky ''10.0.0.0/30'' = Inr (0x0A000000, 30)"
    by (simp add: world_flaky_def parse_30)
  have s: "sweep_network world_flaky ''10.0.0.0/30'' 32 300 False =
      (Inr [(''10.0.0.1'', True), (''10.0.0.2'', False)],
       snd (sweep_network world_flaky ''10.0.0.0/30'' 32 300 False))"
    using sweep_flaky by (cases "sweep_network world_flaky ''10.0.0.0/30'' 32 300 False") simp
  have a: "respond world_flaky (get_ping_command (system world_flaky) ''10.0.0.1'' 300) = Inr 0"
    "respond world_flaky (get_ping_command (system world_flaky) ''10.0.0.2'' 300) =
       Inl (OSError ''Permission denied'')"
    by (simp_all add: world_flaky_def cmd_windows_300)
  from counts_partition_results [OF p s] p sweep_flaky show ?thesis
    by (simp add: hosts_30 a)
qed

subsection \<open>A network of one address\<close>

lemma sweep_32:
  assumes "parse_network w cidr = Inr (0x0A000000, 32)" and "0 < n"
  shows "fst (sweep_network w cidr n t q) =
           Inr [(''10.0.0.0'', respond w (get_ping_command (system w) ''10.0.0.0'' t) = Inr 0)]"
    and "dispatched w (snd (sweep_network w cidr n t q)) = [get_ping_command (system w) ''10.0.0.0'' t]"
  by (simp_all add: sweep_network_results [OF assms] sweep_network_dispatched [OF assms] hosts_32
        as_completed_single up_of_ping_once del: as_completed.simps)

text \<open>
  Claim C4, as stated, at a concrete input. \<open>hosts\<close> of a \<open>/32\<close> is the list of its
  single address, so the sweep of \<open>10.0.0.0/32\<close> probes \<open>10.0.0.0\<close>: one command is
  run and the result has one pair.
\<close>

theorem slash_32_is_probed:
  "fst (sweep_network world_one_up ''10.0.0.0/32'' 32 300 False) = Inr [(''10.0.0.0'', False)] \<and>
   total_count [(''10.0.0.0'', False)] = 1 \<and>
   dispatched world_one_up (snd (sweep_network world_one_up ''10.0.0.0/32'' 32 300 False)) =
     [[''ping'', ''-c'', ''1'', ''-W'', ''1'', ''10.0.0.0'']]"
proof -
  have p: "parse_network world_one_up ''10.0.0.0/32'' = Inr (0x0A000000, 32)"
    by (simp add: world_one_up_def parse_32)
  have n: "(0::int) < 32" by simp
  show ?thesis
    by (simp add: sweep_32 [OF p n] total_count_def) (simp add: world_one_up_def cmd_linux_300)
qed


text \<open>
  Claim C4, amended. Sweeping \<open>10.0.0.0/32\<close> yields one host, \<open>10.0.0.0\<close>: the result
  is one pair with total 1 (up and down counts adding up to 1), and exactly one probe is
  dispatched, for that address.
\<close>

theorem slash_32_sweeps_its_single_address:
  assumes "parse_network w ''10.0.0.0/32'' = Inr (0x0A000000, 32)" and "0 < n"
  shows "\<exists>up. fst (sweep_network w ''10.0.0.0/32'' n t q) = Inr [(''10.0.0.0'', up)] \<and>
           total_count [(''10.0.0.0'', up)] = 1 \<and>
           up_count [(''10.0.0.0'', up)] + down_count [(''10.0.0.0'', up)] = 1 \<and>
           dispatched w (snd (sweep_network w ''10.0.0.0/32'' n t q)) =
             [get_ping_command (system w) ''10.0.0.0'' t]"
  using sweep_32 [OF assms, of t q] up_down_total [of "[(''10.0.0.0'', respond w (get_ping_command (system w) ''10.0.0.0'' t) = Inr 0)]"]
  by (simp add: total_count_def)

theorem slash_32_sweeps_its_single_address_witness:
  "parse_network world_flaky ''10.0.0.0/32'' = Inr (0x0A000000, 32) \<and> (0::int) < 4 \<and>
   (\<exists>up. fst (sweep_network world_flaky ''10.0.0.0/32'' 4 300 True) = Inr [(''10.0.0.0'', up)] \<and>
      dispatched world_flaky (snd (sweep_network world_flaky ''10.0.0.0/32'' 4 300 True)) =
             [[''ping'', ''-n'', ''1'', ''-w'', ''300'', ''10.0.0.0'']])"
proof -
  have p: "parse_network world_flaky ''10.0.0.0/32'' = Inr (0x0A000000, 32)"
    by (simp add: world_flaky_def parse_32)
  have n: "(0::int) < 4" by simp
  have s: "system world_flaky = ''Windows''"
    by (simp add: world_flaky_def)
  from slash_32_sweeps_its_single_address [OF p n, of 300 True]
  have "\<exists>up. fst (sweep_network world_flaky ''10.0.0.0/32'' 4 300 True) = Inr [(''10.0.0.0'', up)] \<and>
      dispatched world_flaky (snd (sweep_network world_flaky ''10.0.0.0/32'' 4 300 True)) =
             [[''ping'', ''-n'', ''1'', ''-w'', ''300'', ''10.0.0.0'']]"
    unfolding s cmd_windows_300 by blast
  with p n show ?thesis
    by blast
qed

subsection \<open>Every host once\<close>

text \<open>
  The dotted-quad text of an address determines the address, and \<open>hosts\<close> never lists
  an address twice; so the host list of a network, as strings, has no duplicates.
\<close>

lemma digit_char_inj: "a < 10 \<Longrightarrow> b < 10 \<Longrightarrow> digit_char a = digit_char b \<Longrightarrow> a = b"
proof -
  assume a: "a < 10" and b: "b < 10" and e: "digit_char a = digit_char b"
  have d: "distinct ''0123456789''"
    by simp
  have "a < length ''0123456789''" "b < length ''0123456789''"
    using a b by simp_all
  from nth_eq_iff_index_eq [OF d this] e show ?thesis
    by (simp add: digit_char_def)
qed

lemma digit_char_not_dot: "d < 10 \<Longrightarrow> digit_char d \<noteq> CHR ''.''"
proof -
  assume "d < 10"
  then have "d < length ''0123456789''"
    by simp
  then have "''0123456789'' ! d \<in> set ''0123456789''"
    by (rule nth_mem)
  moreover have "CHR ''.'' \<notin> set ''0123456789''"
    by simp
  ultimately show ?thesis
    unfolding digit_char_def by metis
qed

lemma dot_notin_str_nat: "CHR ''.'' \<notin> set (str_nat n)"
proof (induction n rule: str_nat.induct)
  case (1 n)
  show ?case
  proof (cases "n < 10")
    case True
    then show ?thesis
      using digit_char_not_dot [of n] by (subst str_nat.simps) auto
  next
    case False
    have "n mod 10 < 10" by simp
    then show ?thesis
      using False "1.IH" digit_char_not_dot [of "n mod 10"]
      by (subst str_nat.simps) auto
  qed
qed

lemma str_nat_nonempty: "str_nat n \<noteq> []"
  by (subst str_nat.simps) simp

lemma str_nat_inj: "str_nat m = str_nat n \<Longrightarrow> m = n"
proof (induction m arbitrary: n rule: str_nat.induct)
  case (1 m)
  show ?case
  proof (cases "m < 10")
    case m: True
    show ?thesis
    proof (cases "n < 10")
      case True
      with m "1.prems" show ?thesis
        by (simp add: str_nat.simps [of m] str_nat.simps [of n] digit_char_inj)
    next
      case False
      with m "1.prems" str_nat_nonempty [of "n div 10"] show ?thesis
        by (simp add: str_nat.simps [of m] str_nat.simps [of n] Cons_eq_append_conv)
    qed
  next
    case m: False
    show ?thesis
    proof (cases "n < 10")
      case True
      with m "1.prems" str_nat_nonempty [of "m div 10"] show ?thesis
        by (simp add: str_nat.simps [of m] str_nat.simps [of n] append_eq_Cons_conv)
    next
      case False
      with m "1.prems" have e: "str_nat (m div 10) = str_nat (n div 10)"
        and d: "digit_char (m mod 10) = digit_char (n mod 10)"
        by (simp_all add: str_nat.simps [of m] str_nat.simps [of n])
      have "m div 10 = n div 10"
        using "1.IH" [OF m e] .
      moreover have "m mod 10 = n mod 10"
        using d by (intro digit_char_inj) simp_all
      ultimately show ?thesis
        by (metis div_mult_mod_eq)
    qed
  qed
qed

lemma split_at_first:
  "c \<notin> set xs \<Longrightarrow> c \<notin> set xs' \<Longrightarrow> xs @ c # ys = xs' @ c # ys' \<Longrightarrow> xs = xs' \<and> ys = ys'"
proof (induction xs arbitrary: xs')
  case Nil
  then show ?case by (cases xs') auto
next
  case (Cons x xs)
  then show ?case by (cases xs') auto
qed

lemma str_ip_unfold:
  "str_ip a = str_nat (unat a div 2 ^ 24 mod 256) @ CHR ''.'' #
              str_nat (unat a div 2 ^ 16 mod 256) @ CHR ''.'' #
              str_nat (unat a div 2 ^ 8 mod 256) @ CHR ''.'' #
              str_nat (unat a mod 256)"
  by (simp add: str_ip_def to_bytes4_def)

lemma div_step:
  fixes x y k :: nat
  assumes "x div (k * 256) = y div (k * 256)" and "x div k mod 256 = y div k mod 256"
  shows "x div k = y div k"
proof -
  have "x div k div 256 = y div k div 256"
    using assms(1) by (simp add: div_mult2_eq)
  then show ?thesis
    using assms(2) by (metis div_mult_mod_eq)
qed

lemma octets_determine:
  fixes x y :: nat
  assumes "x < 2 ^ 32" and "y < 2 ^ 32"
    and "x div 2 ^ 24 mod 256 = y div 2 ^ 24 mod 256"
    and "x div 2 ^ 16 mod 256 = y div 2 ^ 16 mod 256"
    and "x div 2 ^ 8 mod 256 = y div 2 ^ 8 mod 256"
    and "x mod 256 = y mod 256"
  shows "x = y"
proof -
  have "x div 2 ^ 24 < 256" "y div 2 ^ 24 < 256"
    using assms(1,2) by (simp_all add: less_mult_imp_div_less)
  then have e24: "x div 2 ^ 24 = y div 2 ^ 24"
    using assms(3) by simp
  have e16: "x div 2 ^ 16 = y div 2 ^ 16"
    by (rule div_step) (use e24 assms(4) in simp_all)
  have e8: "x div 2 ^ 8 = y div 2 ^ 8"
    by (rule div_step) (use e16 assms(5) in simp_all)
  have "x div 1 = y div 1"
    by (rule div_step) (use e8 assms(6) in simp_all)
  then show ?thesis
    by simp
qed

lemma str_ip_inj: "str_ip a = str_ip b \<Longrightarrow> a = b"
proof -
  assume e: "str_ip a = str_ip b"
  note d = dot_notin_str_nat
  from e have e1: "str_nat (unat a div 2 ^ 24 mod 256) = str_nat (unat b div 2 ^ 24 mod 256)"
    and r1: "str_nat (unat a div 2 ^ 16 mod 256) @ CHR ''.'' #
              str_nat (unat a div 2 ^ 8 mod 256) @ CHR ''.'' # str_nat (unat a mod 256) =
             str_nat (unat b div 2 ^ 16 mod 256) @ CHR ''.'' #
              str_nat (unat b div 2 ^ 8 mod 256) @ CHR ''.'' # str_nat (unat b mod 256)"
    unfolding str_ip_unfold using split_at_first [OF d d] by blast+
  from r1 have e2: "str_nat (unat a div 2 ^ 16 mod 256) = str_nat (unat b div 2 ^ 16 mod 256)"
    and r2: "str_nat (unat a div 2 ^ 8 mod 256) @ CHR ''.'' # str_nat (unat a mod 256) =
             str_nat (unat b div 2 ^ 8 mod 256) @ CHR ''.'' # str_nat (unat b mod 256)"
    using split_at_first [OF d d] by blast+
  from r2 have e3: "str_nat (unat a div 2 ^ 8 mod 256) = str_nat (unat b div 2 ^ 8 mod 256)"
    and e4: "str_nat (unat a mod 256) = str_nat (unat b mod 256)"
    using split_at_first [OF d d] by blast+
  have "unat a < 2 ^ 32" "unat b < 2 ^ 32"
    using unsigned_less [of a, where 'a = nat] unsigned_less [of b, where 'a = nat] by simp_all
  then have "unat a = unat b"
    using str_nat_inj [OF e1] str_nat_inj [OF e2] str_nat_inj [OF e3] str_nat_inj [OF e4]
    by (rule octets_determine)
  then show ?thesis
    by (simp add: word_unat_eq_iff)
qed

lemma distinct_word_of_nat_upt:
  assumes "j \<le> 2 ^ 32"
  shows "distinct (map (word_of_nat :: nat \<Rightarrow> 32 word) [i..<j])"
proof -
  have "inj_on (word_of_nat :: nat \<Rightarrow> 32 word) (set [i..<j])"
  proof (rule inj_onI)
    fix x y
    assume "x \<in> set [i..<j]" "y \<in> set [i..<j]"
      and e: "(word_of_nat x :: 32 word) = word_of_nat y"
    then have "x < 2 ^ 32" "y < 2 ^ 32"
      using assms by simp_all
    then have "take_bit 32 x = x" "take_bit 32 y = y"
      by (simp_all add: take_bit_nat_eq_self)
    with e show "x = y"
      by (simp add: word_of_nat_eq_iff)
  qed
  then show ?thesis
    by (simp add: distinct_map)
qed

lemma distinct_hosts: "distinct (hosts n)"
proof -
  have b: "unat (broadcast_address n) < 2 ^ 32"
    using unsigned_less [of "broadcast_address n", where 'a = nat] by simp
  then have "unat (broadcast_address n) + 1 \<le> 2 ^ 32" "unat (broadcast_address n) \<le> 2 ^ 32"
    by simp_all
  then show ?thesis
    by (simp add: hosts_def Let_def distinct_word_of_nat_upt del: upt_Suc)
qed

lemma distinct_str_hosts: "distinct (map str_ip (hosts n))"
proof -
  have "inj_on str_ip (set (hosts n))"
    by (rule inj_onI) (rule str_ip_inj)
  then show ?thesis
    by (simp add: distinct_map distinct_hosts)
qed

lemma get_ping_command_inj: "get_ping_command sys ip t = get_ping_command sys ip' t \<Longrightarrow> ip = ip'"
  by (simp add: get_ping_command_def Let_def split: if_splits)

text \<open>
  Claim C2. A completed sweep of a network with \<open>k\<close> hosts returns \<open>k\<close> pairs whose
  addresses are exactly the hosts of the network, each once; and it runs exactly one
  command per host, no two of them the same.
\<close>

theorem every_host_recorded_exactly_once:
  assumes "parse_network w cidr = Inr (a, p)"
    and "fst (sweep_network w cidr n t q) = Inr results"
  shows "length results = length (hosts (IPv4Network a p)) \<and>
         mset (map fst results) = mset (map str_ip (hosts (IPv4Network a p))) \<and>
         distinct (map fst results) \<and>
         dispatched w (snd (sweep_network w cidr n t q)) =
           map (\<lambda>ip. get_ping_command (system w) ip t) (map str_ip (hosts (IPv4Network a p))) \<and>
         distinct (dispatched w (snd (sweep_network w cidr n t q)))"
proof -
  let ?hs = "map str_ip (hosts (IPv4Network a p))"
  let ?cmd = "\<lambda>ip. get_ping_command (system w) ip t"
  from sweep_network_Inr_D [OF assms(2)] have n: "0 < n"
    by blast
  from sweep_network_mset [OF assms(1) n, of t q] assms(2)
  have m: "mset results = mset (map (\<lambda>ip. (ip, respond w (?cmd ip) = Inr 0)) ?hs)"
    by simp
  have "mset (map fst results) = image_mset fst (mset results)"
    by simp
  also have "\<dots> = mset (map fst (map (\<lambda>ip. (ip, respond w (?cmd ip) = Inr 0)) ?hs))"
    unfolding m by (simp only: mset_map)
  also have "map fst (map (\<lambda>ip. (ip, respond w (?cmd ip) = Inr 0)) ?hs) = ?hs"
    by (simp add: o_def)
  finally have mf: "mset (map fst results) = mset ?hs" .
  have len: "length results = length (hosts (IPv4Network a p))"
    using mset_eq_length [OF mf] by simp
  have dr: "distinct (map fst results)"
    using mset_eq_imp_distinct_iff [OF mf] distinct_str_hosts by simp
  have d: "dispatched w (snd (sweep_network w cidr n t q)) = map ?cmd ?hs"
    by (rule sweep_network_dispatched [OF assms(1) n])
  have "inj_on ?cmd (set ?hs)"
    by (rule inj_onI) (rule get_ping_command_inj)
  then have "distinct (map ?cmd ?hs)"
    using distinct_str_hosts by (simp only: distinct_map)
  with len mf dr d show ?thesis
    by simp
qed

theorem every_host_recorded_exactly_once_witness:
  "parse_network world_one_up ''10.0.0.0/30'' = Inr (0x0A000000, 30) \<and>
   fst (sweep_network world_one_up ''10.0.0.0/30'' 32 300 True) =
     Inr [(''10.0.0.2'', False), (''10.0.0.1'', True)] \<and>
   length [(''10.0.0.2'', False), (''10.0.0.1'', True)] = length (hosts (IPv4Network 0x0A000000 30)) \<and>
   distinct (map fst [(''10.0.0.2'', False), (''10.0.0.1'', True)]) \<and>
   dispatched world_one_up (snd (sweep_network world_one_up ''10.0.0.0/30'' 32 300 True)) =
     [[''ping'', ''-c'', ''1'', ''-W'', ''1'', ''10.0.0.1''],
      [''ping'', ''-c'', ''1'', ''-W'', ''1'', ''10.0.0.2'']]"
proof -
  have p: "parse_network world_one_up ''10.0.0.0/30'' = Inr (0x0A000000, 30)"
    by (simp add: world_one_up_def parse_30)
  have n: "(0::int) < 32" by simp
  have po: "fst (ping_once world_one_up ''10.0.0.1'' 300) = Inr True"
    "fst (ping_once world_one_up ''10.0.0.2'' 300) = Inr False"
    by (simp_all add: ping_once_fst world_one_up_def cmd_linux_300)
  have sch: "schedule world_one_up = [1]" and sys: "system world_one_up = ''Linux''"
    by (simp_all add: world_one_up_def)
  have r: "fst (sweep_network world_one_up ''10.0.0.0/30'' 32 300 True) =
     Inr [(''10.0.0.2'', False), (''10.0.0.1'', True)]"
    by (simp add: sweep_network_results [OF p n] hosts_30 po sch pick_def remove_nth_def up_of_def)
  from every_host_recorded_exactly_once [OF p r] p r show ?thesis
    by (simp add: hosts_30 sys cmd_linux_300)
qed

end
